theory Spec2Isabelle
  imports Main "HOL-Library.Multiset"
begin

section \<open>JavaScript primitives used by the data loader\<close>

text \<open>
  The loader (\<^verbatim>\<open>data-loader.ts\<close>) works on JavaScript numbers and strings. All numbers
  that occur are integers far below \<open>2^53\<close> (time values in milliseconds and minute
  counts), where double arithmetic is exact, so they are modelled as \<^typ>\<open>int\<close>.
\<close>

definition digit_char :: "nat \<Rightarrow> char" where
  "digit_char n = ''0123456789'' ! n"

text \<open>The decimal digits of a natural number, most significant first, no leading zero.\<close>

fun nat_digits :: "nat \<Rightarrow> string" where
  "nat_digits n = (if n < 10 then [digit_char n] else nat_digits (n div 10) @ [digit_char (n mod 10)])"

declare nat_digits.simps [simp del]

text \<open>\<^verbatim>\<open>String(n)\<close> and \<^verbatim>\<open>`${n}`\<close> for an integer-valued number \<open>n\<close>.\<close>

definition String_num :: "int \<Rightarrow> string" where
  "String_num n = (if n < 0 then CHR ''-'' # nat_digits (nat (- n)) else nat_digits (nat n))"

text \<open>\<^verbatim>\<open>s.padStart(n, c)\<close> for a one-character pad string.\<close>

definition padStart :: "nat \<Rightarrow> char \<Rightarrow> string \<Rightarrow> string" where
  "padStart n c s = replicate (n - length s) c @ s"

text \<open>The remainder operator \<^verbatim>\<open>%\<close>: the result has the sign of the dividend.\<close>

definition js_rem :: "int \<Rightarrow> int \<Rightarrow> int" where
  "js_rem a b = sgn a * (\<bar>a\<bar> mod \<bar>b\<bar>)"

text \<open>
  \<^verbatim>\<open>Array.prototype.sort(cmp)\<close> is a stable sort: an element stays in front of the
  later elements that \<open>cmp\<close> ranks equal to it. For a consistent comparator the result
  is unique, and insertion from the right computes it.
\<close>

fun insert_by :: "('a \<Rightarrow> 'a \<Rightarrow> int) \<Rightarrow> 'a \<Rightarrow> 'a list \<Rightarrow> 'a list" where
  "insert_by cmp x [] = [x]"
| "insert_by cmp x (y # ys) = (if cmp x y \<le> 0 then x # y # ys else y # insert_by cmp x ys)"

definition Array_sort :: "('a \<Rightarrow> 'a \<Rightarrow> int) \<Rightarrow> 'a list \<Rightarrow> 'a list" where
  "Array_sort cmp xs = foldr (insert_by cmp) xs []"

text \<open>
  The relational operator \<^verbatim>\<open><\<close> on strings: lexicographic on code units, a proper
  prefix being smaller. All strings compared here are ASCII, one \<^typ>\<open>char\<close> per code unit.
\<close>

fun js_lt :: "string \<Rightarrow> string \<Rightarrow> bool" where
  "js_lt [] [] = False"
| "js_lt [] (y # ys) = True"
| "js_lt (x # xs) [] = False"
| "js_lt (x # xs) (y # ys) = ((of_char x :: nat) < of_char y \<or> (x = y \<and> js_lt xs ys))"

text \<open>
  \<^verbatim>\<open>a.localeCompare(b)\<close>, read for its sign. The strings it is applied to have passed
  \<^verbatim>\<open>dailyDateSchema\<close>: ASCII digits with hyphens at the same two positions, which every
  collation orders as the code units do.
\<close>

definition localeCompare :: "string \<Rightarrow> string \<Rightarrow> int" where
  "localeCompare a b = (if js_lt a b then - 1 else if js_lt b a then 1 else 0)"

text \<open>\<^verbatim>\<open>Array.from(new Set(xs))\<close>: the distinct elements in order of first occurrence.\<close>

definition Set_values :: "'a list \<Rightarrow> 'a list" where
  "Set_values xs = rev (remdups (rev xs))"

text \<open>
  A \<^verbatim>\<open>Map\<close> iterates in insertion order, so it is an association list with distinct
  keys: \<^verbatim>\<open>set\<close> on a new key appends, on an old key replaces the value in place.
\<close>

type_synonym ('k, 'v) js_map = "('k \<times> 'v) list"

definition Map_has :: "('k, 'v) js_map \<Rightarrow> 'k \<Rightarrow> bool" where
  "Map_has m k = (map_of m k \<noteq> None)"

fun Map_set :: "('k, 'v) js_map \<Rightarrow> 'k \<Rightarrow> 'v \<Rightarrow> ('k, 'v) js_map" where
  "Map_set [] k v = [(k, v)]"
| "Map_set ((k', v') # m) k v = (if k' = k then (k, v) # m else (k', v') # Map_set m k v)"

text \<open>\<^verbatim>\<open>m.get(k)!.push(x)\<close>: the array stored under \<open>k\<close> grows at its end.\<close>

fun Map_push :: "('k, 'v list) js_map \<Rightarrow> 'k \<Rightarrow> 'v \<Rightarrow> ('k, 'v list) js_map" where
  "Map_push [] k x = []"
| "Map_push ((k', v') # m) k x =
     (if k' = k then (k', v' @ [x]) # m else (k', v') # Map_push m k x)"

section \<open>Local time of a Date\<close>

text \<open>
  \<^verbatim>\<open>getFullYear\<close>, \<^verbatim>\<open>getMonth\<close>, \<^verbatim>\<open>getDate\<close>, \<^verbatim>\<open>getHours\<close> and
  \<^verbatim>\<open>getMinutes\<close> read a time value in the time zone of the process. The zone is a
  parameter: the offset from UTC in milliseconds that is in force at a time value.
  The calendar is the proleptic Gregorian one of ECMAScript.
\<close>

type_synonym timezone = "int \<Rightarrow> int"

definition localTime :: "timezone \<Rightarrow> int \<Rightarrow> int" where
  "localTime tz t = t + tz t"

definition msPerDay :: int where
  "msPerDay = 86400000"

text \<open>Year, month (1 to 12) and day of the month of a day number counted from 1970-01-01.\<close>

definition civil_from_days :: "int \<Rightarrow> int \<times> int \<times> int" where
  "civil_from_days z0 =
     (let z = z0 + 719468;
          era = z div 146097;
          doe = z - era * 146097;
          yoe = (doe - doe div 1460 + doe div 36524 - doe div 146096) div 365;
          doy = doe - (365 * yoe + yoe div 4 - yoe div 100);
          mp = (5 * doy + 2) div 153;
          d = doy - (153 * mp + 2) div 5 + 1;
          m = (if mp < 10 then mp + 3 else mp - 9);
          y = yoe + era * 400 + (if m \<le> 2 then 1 else 0)
      in (y, m, d))"

definition getFullYear :: "timezone \<Rightarrow> int \<Rightarrow> int" where
  "getFullYear tz t = (case civil_from_days (localTime tz t div msPerDay) of (y, m, d) \<Rightarrow> y)"

definition getMonth :: "timezone \<Rightarrow> int \<Rightarrow> int" where
  "getMonth tz t = (case civil_from_days (localTime tz t div msPerDay) of (y, m, d) \<Rightarrow> m - 1)"

definition getDate :: "timezone \<Rightarrow> int \<Rightarrow> int" where
  "getDate tz t = (case civil_from_days (localTime tz t div msPerDay) of (y, m, d) \<Rightarrow> d)"

definition getHours :: "timezone \<Rightarrow> int \<Rightarrow> int" where
  "getHours tz t = (localTime tz t div 3600000) mod 24"

definition getMinutes :: "timezone \<Rightarrow> int \<Rightarrow> int" where
  "getMinutes tz t = (localTime tz t div 60000) mod 60"

section \<open>Entries and sessions\<close>

text \<open>
  An entry carries an ISO timestamp string (\<^verbatim>\<open>ISOTimestamp\<close>); the code only ever
  reads it through \<^verbatim>\<open>new Date(e.timestamp)\<close>. The model stores the time value of that
  date, the milliseconds since 1970-01-01T00:00:00Z that \<^verbatim>\<open>getTime()\<close> returns.
  \<^verbatim>\<open>calculateConversationTime\<close> accepts any object with a \<^verbatim>\<open>timestamp\<close> field, which
  the extensible record mirrors.
\<close>

record stamped =
  timestamp :: int

text \<open>
  The elements of \<^verbatim>\<open>allEntries\<close>: a usage entry with the session identifier and the
  path of its file. The other fields of \<^verbatim>\<open>UsageData\<close> are not read by the aggregation.
\<close>

record usage_entry = stamped +
  sessionId :: string
  filePath :: string

record DailyConversation =
  date :: string
  firstMessageTime :: string
  lastMessageTime :: string
  estimatedConversationTime :: string
  messageCount :: nat
  sessionIds :: "string list"

text \<open>The filter fields of \<^verbatim>\<open>LoadOptions\<close>; an absent field is \<open>None\<close>.\<close>

record LoadOptions =
  since :: "string option"
  until :: "string option"

record load_result =
  conversations :: "DailyConversation list"
  allEntries :: "usage_entry list"

text \<open>The error that \<^verbatim>\<open>schema.parse\<close> throws.\<close>

datatype error = ZodError

record session =
  session_start :: int
  session_end :: int

text \<open>The mutable variables of the segmentation loop.\<close>

record seg_state =
  sessions :: "session list"
  currentSessionStart :: int
  currentSessionEnd :: int

section \<open>calculateConversationTime\<close>

definition SESSION_GAP_MS :: int where
  "SESSION_GAP_MS = 3 * 60 * 1000"

text \<open>Lines 257-259: a sorted copy of the entries, ascending by time value.\<close>

definition sortEntries :: "'a stamped_scheme list \<Rightarrow> 'a stamped_scheme list" where
  "sortEntries entries = Array_sort (\<lambda>a b. timestamp a - timestamp b) entries"

text \<open>Lines 274-289: the body of the loop, for the entry at index \<open>i\<close>.\<close>

definition segment_step :: "int \<Rightarrow> seg_state \<Rightarrow> 'a stamped_scheme \<Rightarrow> seg_state" where
  "segment_step gap st e =
     (let currentTime = timestamp e;
          timeSinceLastMessage = currentTime - currentSessionEnd st
      in if timeSinceLastMessage \<le> gap
         then st\<lparr>currentSessionEnd := currentTime\<rparr>
         else \<lparr>sessions = sessions st @
                  [\<lparr>session_start = currentSessionStart st, session_end = currentSessionEnd st\<rparr>],
               currentSessionStart = currentTime,
               currentSessionEnd = currentTime\<rparr>)"

text \<open>Line 273: the loop over the entries at indices \<open>1, 2, ...\<close> of the sorted array.\<close>

fun segment_loop :: "int \<Rightarrow> 'a stamped_scheme list \<Rightarrow> seg_state \<Rightarrow> seg_state" where
  "segment_loop gap [] st = st"
| "segment_loop gap (e # es) st = segment_loop gap es (segment_step gap st e)"

text \<open>Lines 270-271: both variables start at the first sorted entry.\<close>

definition initial_state :: "'a stamped_scheme \<Rightarrow> seg_state" where
  "initial_state e0 =
     \<lparr>sessions = [], currentSessionStart = timestamp e0, currentSessionEnd = timestamp e0\<rparr>"

text \<open>Line 297: the open session is pushed after the loop.\<close>

definition close_state :: "seg_state \<Rightarrow> session list" where
  "close_state st = sessions st @
     [\<lparr>session_start = currentSessionStart st, session_end = currentSessionEnd st\<rparr>]"

text \<open>
  Lines 267-297 with the gap as a parameter. The empty case is not reached from
  \<^verbatim>\<open>calculateConversationTime\<close>, which returns before sorting.
\<close>

definition segment :: "int \<Rightarrow> 'a stamped_scheme list \<Rightarrow> session list" where
  "segment gap sortedEntries =
     (case sortedEntries of
        [] \<Rightarrow> []
      | e0 # rest \<Rightarrow> close_state (segment_loop gap rest (initial_state e0)))"

text \<open>Lines 300-305: the accumulation of the session minutes.\<close>

definition sessionMinutes :: "session \<Rightarrow> int" where
  "sessionMinutes s =
     (let sessionDurationMs = session_end s - session_start s
      in max 1 (sessionDurationMs div (1000 * 60)))"

definition totalMinutes_of :: "session list \<Rightarrow> int" where
  "totalMinutes_of ss = foldl (\<lambda>totalMinutes s. totalMinutes + sessionMinutes s) 0 ss"

text \<open>Lines 312-323: the rendering of the total.\<close>

definition render_minutes :: "int \<Rightarrow> string" where
  "render_minutes totalMinutes =
     (if totalMinutes < 60 then String_num totalMinutes @ ''m''
      else let hours = totalMinutes div 60;
               minutes = js_rem totalMinutes 60
           in if minutes = 0 then String_num hours @ ''h''
              else String_num hours @ ''h '' @ String_num minutes @ ''m'')"

definition calculateConversationTime :: "'a stamped_scheme list \<Rightarrow> string" where
  "calculateConversationTime entries =
     (if length entries = 0 then ''0m''
      else if length entries = 1 then ''1m''
      else render_minutes (totalMinutes_of (segment SESSION_GAP_MS (sortEntries entries))))"

section \<open>Formatting of times and dates\<close>

definition is_digit :: "char \<Rightarrow> bool" where
  "is_digit c = (c \<in> set ''0123456789'')"

text \<open>The pattern \<^verbatim>\<open>/^\\d{4}-\\d{2}-\\d{2}$/\<close> of \<^verbatim>\<open>dailyDateSchema\<close>.\<close>

fun dailyDate_regex :: "string \<Rightarrow> bool" where
  "dailyDate_regex [y1, y2, y3, y4, h1, m1, m2, h2, d1, d2] =
     (is_digit y1 \<and> is_digit y2 \<and> is_digit y3 \<and> is_digit y4 \<and> h1 = CHR ''-'' \<and>
      is_digit m1 \<and> is_digit m2 \<and> h2 = CHR ''-'' \<and> is_digit d1 \<and> is_digit d2)"
| "dailyDate_regex _ = False"

definition createDailyDate :: "string \<Rightarrow> error + string" where
  "createDailyDate v = (if dailyDate_regex v then Inr v else Inl ZodError)"

definition formatTime :: "timezone \<Rightarrow> int \<Rightarrow> string" where
  "formatTime tz ts =
     (let hours = padStart 2 CHR ''0'' (String_num (getHours tz ts));
          minutes = padStart 2 CHR ''0'' (String_num (getMinutes tz ts))
      in hours @ '':'' @ minutes)"

definition formatDate :: "timezone \<Rightarrow> int \<Rightarrow> error + string" where
  "formatDate tz ts =
     (let year = getFullYear tz ts;
          month = padStart 2 CHR ''0'' (String_num (getMonth tz ts + 1));
          day = padStart 2 CHR ''0'' (String_num (getDate tz ts))
      in createDailyDate (String_num year @ ''-'' @ month @ ''-'' @ day))"

section \<open>loadDailyConversationData, from the loaded entries on\<close>

text \<open>
  Lines 331-375 find and read the files; what they hand on is the array
  \<^verbatim>\<open>allEntries\<close>, the input of the model. A string option counts as set when it is
  neither absent nor empty (\<^verbatim>\<open>options?.since && ...\<close>).
\<close>

definition truthy :: "string option \<Rightarrow> bool" where
  "truthy s = (case s of None \<Rightarrow> False | Some v \<Rightarrow> v \<noteq> [])"

text \<open>Lines 379-384: the callback of the filter; \<^verbatim>\<open>formatDate\<close> may throw in it.\<close>

definition keepEntry :: "timezone \<Rightarrow> LoadOptions \<Rightarrow> usage_entry \<Rightarrow> error + bool" where
  "keepEntry tz opts entry =
     (case formatDate tz (timestamp entry) of
        Inl err \<Rightarrow> Inl err
      | Inr d \<Rightarrow>
          (let dateStr = filter (\<lambda>c. c \<noteq> CHR ''-'') d
           in if truthy (since opts) \<and> (case since opts of Some s \<Rightarrow> js_lt dateStr s | None \<Rightarrow> False)
              then Inr False
              else if truthy (until opts) \<and> (case until opts of Some u \<Rightarrow> js_lt u dateStr | None \<Rightarrow> False)
              then Inr False
              else Inr True))"

fun filter_loop :: "timezone \<Rightarrow> LoadOptions \<Rightarrow> usage_entry list \<Rightarrow> error + usage_entry list" where
  "filter_loop tz opts [] = Inr []"
| "filter_loop tz opts (entry # rest) =
     (case keepEntry tz opts entry of
        Inl err \<Rightarrow> Inl err
      | Inr keep \<Rightarrow>
          (case filter_loop tz opts rest of
             Inl err \<Rightarrow> Inl err
           | Inr kept \<Rightarrow> Inr (if keep then entry # kept else kept)))"

text \<open>Line 378: without bounds the array is taken as it is.\<close>

definition filteredEntries :: "timezone \<Rightarrow> LoadOptions \<Rightarrow> usage_entry list \<Rightarrow> error + usage_entry list" where
  "filteredEntries tz opts entries =
     (if \<not> truthy (since opts) \<and> \<not> truthy (until opts) then Inr entries
      else filter_loop tz opts entries)"

text \<open>Lines 387-395: the grouping by local date.\<close>

fun group_loop :: "timezone \<Rightarrow> usage_entry list \<Rightarrow> (string, usage_entry list) js_map \<Rightarrow>
    error + (string, usage_entry list) js_map" where
  "group_loop tz [] dailyGroups = Inr dailyGroups"
| "group_loop tz (entry # rest) dailyGroups =
     (case formatDate tz (timestamp entry) of
        Inl err \<Rightarrow> Inl err
      | Inr d \<Rightarrow>
          (let g = (if \<not> Map_has dailyGroups d then Map_set dailyGroups d [] else dailyGroups)
           in group_loop tz rest (Map_push g d entry)))"

text \<open>Lines 403-421: the summary of one date; the group is sorted in place first.\<close>

definition summarize :: "timezone \<Rightarrow> string \<Rightarrow> usage_entry list \<Rightarrow> DailyConversation" where
  "summarize tz d entries0 =
     (let entries = sortEntries entries0;
          firstEntry = entries ! 0;
          lastEntry = entries ! (length entries - 1);
          ids = Set_values (map sessionId entries)
      in \<lparr>date = d,
          firstMessageTime = formatTime tz (timestamp firstEntry),
          lastMessageTime = formatTime tz (timestamp lastEntry),
          estimatedConversationTime = calculateConversationTime entries,
          messageCount = length entries,
          sessionIds = ids\<rparr>)"

text \<open>Lines 400-422: the loop over the groups, in insertion order.\<close>

fun summary_loop :: "timezone \<Rightarrow> (string, usage_entry list) js_map \<Rightarrow> DailyConversation list" where
  "summary_loop tz [] = []"
| "summary_loop tz ((d, entries) # groups) =
     (if length entries = 0 then summary_loop tz groups
      else summarize tz d entries # summary_loop tz groups)"

definition loadDailyConversationData ::
    "timezone \<Rightarrow> LoadOptions \<Rightarrow> usage_entry list \<Rightarrow> error + load_result" where
  "loadDailyConversationData tz opts loaded =
     (case filteredEntries tz opts loaded of
        Inl err \<Rightarrow> Inl err
      | Inr filtered \<Rightarrow>
          (case group_loop tz filtered [] of
             Inl err \<Rightarrow> Inl err
           | Inr dailyGroups \<Rightarrow>
               Inr \<lparr>conversations =
                      Array_sort (\<lambda>a b. localeCompare (date b) (date a)) (summary_loop tz dailyGroups),
                    allEntries = filtered\<rparr>))"

section \<open>Notions used to state the properties\<close>

definition loop_state :: "int \<Rightarrow> 'a stamped_scheme list \<Rightarrow> nat \<Rightarrow> seg_state" where
  "loop_state gap sortedEntries i =
     segment_loop gap (take (i - 1) (tl sortedEntries)) (initial_state (hd sortedEntries))"


fun fixed_digits :: "nat \<Rightarrow> nat \<Rightarrow> string" where
  "fixed_digits 0 n = []"
| "fixed_digits (Suc k) n = fixed_digits k (n div 10) @ [digit_char (n mod 10)]"


definition localDate :: "timezone \<Rightarrow> int \<Rightarrow> int \<times> int \<times> int" where
  "localDate tz t = (getFullYear tz t, getMonth tz t + 1, getDate tz t)"


definition date_le :: "int \<times> int \<times> int \<Rightarrow> int \<times> int \<times> int \<Rightarrow> bool" where
  "date_le a b = (case a of (y, m, d) \<Rightarrow> case b of (y', m', d') \<Rightarrow>
     y < y' \<or> (y = y' \<and> (m < m' \<or> (m = m' \<and> d \<le> d'))))"

definition date_lt :: "int \<times> int \<times> int \<Rightarrow> int \<times> int \<times> int \<Rightarrow> bool" where
  "date_lt a b = (case a of (y, m, d) \<Rightarrow> case b of (y', m', d') \<Rightarrow>
     y < y' \<or> (y = y' \<and> (m < m' \<or> (m = m' \<and> d < d'))))"

definition is_date :: "int \<times> int \<times> int \<Rightarrow> bool" where
  "is_date a = (case a of (y, m, d) \<Rightarrow> 0 \<le> y \<and> y \<le> 9999 \<and> 1 \<le> m \<and> m \<le> 12 \<and> 1 \<le> d \<and> d \<le> 31)"

definition YYYYMMDD :: "int \<times> int \<times> int \<Rightarrow> string" where
  "YYYYMMDD a = (case a of (y, m, d) \<Rightarrow>
     fixed_digits 4 (nat y) @ fixed_digits 2 (nat m) @ fixed_digits 2 (nat d))"

definition within_range ::
    "(int \<times> int \<times> int) option \<Rightarrow> (int \<times> int \<times> int) option \<Rightarrow> int \<times> int \<times> int \<Rightarrow> bool" where
  "within_range s u x =
     ((case s of None \<Rightarrow> True | Some lo \<Rightarrow> date_le lo x) \<and>
      (case u of None \<Rightarrow> True | Some hi \<Rightarrow> date_le x hi))"


definition group_size :: "(string, usage_entry list) js_map \<Rightarrow> nat" where
  "group_size g = sum_list (map (\<lambda>(d, es). length es) g)"

definition in_digits :: "int \<times> int \<times> int \<Rightarrow> bool" where
  "in_digits a = (case a of (y, m, d) \<Rightarrow>
     0 \<le> y \<and> y < 10000 \<and> 0 \<le> m \<and> m < 100 \<and> 0 \<le> d \<and> d < 100)"

text \<open>Every group is non-empty and holds entries of the input whose local date is its key.\<close>

definition groups_ok :: "timezone \<Rightarrow> usage_entry set \<Rightarrow> (string, usage_entry list) js_map \<Rightarrow> bool" where
  "groups_ok tz S g =
     (\<forall>(d, es) \<in> set g. es \<noteq> [] \<and> (\<forall>e \<in> set es. e \<in> S \<and> formatDate tz (timestamp e) = Inr d))"

section \<open>Sorting and segmentation\<close>

lemma insert_by_timestamp:
  "insert_by (\<lambda>a b. timestamp a - timestamp b) x ys = insort_key timestamp x ys"
  by (induction ys) auto

lemma sortEntries_sort_key: "sortEntries es = sort_key timestamp es"
  unfolding sortEntries_def Array_sort_def
  by (induction es) (simp_all add: insert_by_timestamp)

lemma length_sortEntries: "length (sortEntries es) = length es"
  by (simp add: sortEntries_sort_key)

lemma segment_loop_append:
  "segment_loop gap (xs @ ys) st = segment_loop gap ys (segment_loop gap xs st)"
  by (induction xs arbitrary: st) simp_all

lemma segment_step_end: "currentSessionEnd (segment_step gap st e) = timestamp e"
  by (simp add: segment_step_def Let_def)

lemma segment_loop_end:
  "xs \<noteq> [] \<Longrightarrow> currentSessionEnd (segment_loop gap xs st) = timestamp (last xs)"
proof (induction xs arbitrary: st)
  case Nil
  then show ?case by simp
next
  case (Cons x xs)
  show ?case
  proof (cases xs)
    case Nil
    then show ?thesis by (simp add: segment_step_end)
  next
    case (Cons y ys)
    with Cons.IH show ?thesis by simp
  qed
qed

lemma loop_state_Suc:
  assumes "1 \<le> i" "i < length srt"
  shows "loop_state gap srt (Suc i) = segment_step gap (loop_state gap srt i) (srt ! i)"
proof -
  from assms obtain e0 rest where srt: "srt = e0 # rest" by (cases srt) auto
  with assms have lt: "i - 1 < length rest" by auto
  have "take (Suc (i - 1)) rest = take (i - 1) rest @ [rest ! (i - 1)]"
    using lt by (simp add: take_Suc_conv_app_nth)
  moreover have "rest ! (i - 1) = srt ! i" using assms srt by (cases i) auto
  moreover have "Suc i - 1 = Suc (i - 1)" using assms by simp
  ultimately show ?thesis
    by (simp add: loop_state_def srt segment_loop_append)
qed

lemma loop_state_end:
  assumes "1 \<le> i" "i < length srt"
  shows "currentSessionEnd (loop_state gap srt i) = timestamp (srt ! (i - 1))"
proof (cases "i = 1")
  case True
  with assms show ?thesis
    by (cases srt) (simp_all add: loop_state_def initial_state_def)
next
  case False
  with assms have "2 \<le> i" by simp
  then obtain j where j: "i = Suc j" "1 \<le> j" by (cases i) auto
  with assms have "j < length srt" by simp
  from loop_state_Suc[OF j(2) this] show ?thesis
    by (simp add: j segment_step_end)
qed

lemma loop_state_final:
  "srt \<noteq> [] \<Longrightarrow> segment gap srt = close_state (loop_state gap srt (length srt))"
  by (cases srt) (simp_all add: segment_def loop_state_def)

lemma foldl_plus: "foldl (\<lambda>a s. a + f s) (a0::int) ss = a0 + sum_list (map f ss)"
  by (induction ss arbitrary: a0) simp_all

lemma totalMinutes_of_sum: "totalMinutes_of ss = sum_list (map sessionMinutes ss)"
  by (simp add: totalMinutes_of_def foldl_plus)

lemma sortEntries_single: "sortEntries [e] = [e]"
  by (simp add: sortEntries_def Array_sort_def)

lemma segment_single: "segment gap [e] = [\<lparr>session_start = timestamp e, session_end = timestamp e\<rparr>]"
  by (simp add: segment_def close_state_def initial_state_def)

lemma render_1: "render_minutes 1 = ''1m''"
  by (simp add: render_minutes_def String_num_def nat_digits.simps digit_char_def)

lemma segment_loop_cong:
  "map timestamp xs = map timestamp ys \<Longrightarrow> segment_loop gap xs st = segment_loop gap ys st"
proof (induction xs arbitrary: ys st)
  case Nil
  then show ?case by simp
next
  case (Cons x xs)
  then obtain y ys' where "ys = y # ys'" "timestamp x = timestamp y" "map timestamp xs = map timestamp ys'"
    by (cases ys) auto
  with Cons.IH[of ys'] show ?case by (simp add: segment_step_def)
qed

lemma segment_cong:
  assumes "map timestamp xs = map timestamp ys"
  shows "segment gap xs = segment gap ys"
proof (cases xs)
  case Nil
  with assms show ?thesis by (simp add: segment_def)
next
  case (Cons x xs')
  with assms obtain y ys' where ys: "ys = y # ys'" "timestamp x = timestamp y"
      "map timestamp xs' = map timestamp ys'"
    by (cases ys) auto
  from segment_loop_cong[OF ys(3)] show ?thesis
    by (simp add: Cons ys segment_def initial_state_def)
qed

lemma sortEntries_timestamps: "map timestamp (sortEntries es) = sort (map timestamp es)"
  unfolding sortEntries_sort_key
  by (rule properties_for_sort[symmetric]) simp_all

lemma sortEntries_mset_cong:
  assumes "mset es = mset es'"
  shows "map timestamp (sortEntries es) = map timestamp (sortEntries es')"
proof -
  have "mset (map timestamp es) = mset (map timestamp es')"
    using assms by (metis mset_map)
  then have "sort (map timestamp es) = sort (map timestamp es')"
    by (intro properties_for_sort) simp_all
  then show ?thesis by (simp add: sortEntries_timestamps)
qed

lemma sortEntries_idem: "sortEntries (sortEntries es) = sortEntries es"
  by (simp add: sortEntries_sort_key sort_key_id_if_sorted)

lemma length_mset_eq: "mset es = mset es' \<Longrightarrow> length es = length es'"
  by (metis size_mset)

lemma nat_digits_small: "n < 10 \<Longrightarrow> nat_digits n = [digit_char n]"
  by (subst nat_digits.simps) simp

lemma sortEntries_five_minutes: "sortEntries [\<lparr>timestamp = t\<rparr>, \<lparr>timestamp = t + 5 * 60 * 1000\<rparr>] = [\<lparr>timestamp = t\<rparr>, \<lparr>timestamp = t + 5 * 60 * 1000\<rparr>]"
  by (simp add: sortEntries_def Array_sort_def)

lemma segment_five_minutes: "segment SESSION_GAP_MS [\<lparr>timestamp = t\<rparr>, \<lparr>timestamp = t + 5 * 60 * 1000\<rparr>] =
     [\<lparr>session_start = t, session_end = t\<rparr>,
      \<lparr>session_start = t + 5 * 60 * 1000, session_end = t + 5 * 60 * 1000\<rparr>]"
  by (simp add: segment_def initial_state_def segment_step_def close_state_def SESSION_GAP_MS_def Let_def)

lemma render_2: "render_minutes 2 = ''2m''"
  by (simp add: render_minutes_def String_num_def nat_digits_small digit_char_def)

section \<open>Decimal strings and their order\<close>

lemma below_ten:
  assumes "i < (10::nat)"
  shows "i = 0 \<or> i = 1 \<or> i = 2 \<or> i = 3 \<or> i = 4 \<or> i = 5 \<or> i = 6 \<or> i = 7 \<or> i = 8 \<or> i = 9"
  using assms by arith

lemma digit_char_code: "i < 10 \<Longrightarrow> (of_char (digit_char i) :: nat) = 48 + i"
  by (drule below_ten) (elim disjE; simp add: digit_char_def)

lemma digit_char_is_digit: "i < 10 \<Longrightarrow> is_digit (digit_char i)"
  by (drule below_ten) (elim disjE; simp add: digit_char_def is_digit_def)

lemma hyphen_not_digit: "\<not> is_digit CHR ''-''"
  by (simp add: is_digit_def)

lemma digit_char_inj:
  assumes "i < 10" "j < 10" "digit_char i = digit_char j"
  shows "i = j"
proof -
  have "(of_char (digit_char i) :: nat) = of_char (digit_char j)"
    by (simp only: assms(3))
  then have "48 + i = 48 + j"
    by (simp only: digit_char_code[OF assms(1)] digit_char_code[OF assms(2)])
  then show ?thesis by simp
qed

lemma length_fixed_digits [simp]: "length (fixed_digits k n) = k"
  by (induction k arbitrary: n) simp_all

lemma fixed_digits_all_digits: "list_all is_digit (fixed_digits k n)"
  by (induction k arbitrary: n) (simp_all add: digit_char_is_digit)

lemma fixed_digits_zero: "fixed_digits k 0 = replicate k CHR ''0''"
  by (induction k) (simp_all add: digit_char_def replicate_append_same)

lemma nat_digits_nonempty: "nat_digits n \<noteq> []"
  by (subst nat_digits.simps) simp

lemma nat_digits_all_digits: "list_all is_digit (nat_digits n)"
proof (induction n rule: nat_digits.induct)
  case (1 n)
  show ?case
  proof (cases "n < 10")
    case True
    then show ?thesis by (subst nat_digits.simps) (simp add: digit_char_is_digit)
  next
    case False
    with 1 show ?thesis by (subst nat_digits.simps) (simp add: digit_char_is_digit)
  qed
qed

lemma nat_digits_long: "10 ^ k \<le> n \<Longrightarrow> k < length (nat_digits n)"
proof (induction k arbitrary: n)
  case 0
  then show ?case using nat_digits_nonempty[of n] by (cases "nat_digits n") auto
next
  case (Suc k)
  have "(1::nat) \<le> 10 ^ k" by simp
  then have "(10::nat) \<le> 10 * 10 ^ k" by simp
  with Suc.prems have "10 \<le> n" by (metis le_trans power_Suc)
  moreover from Suc.prems have "10 ^ k \<le> n div 10" by (simp add: less_eq_div_iff_mult_less_eq mult.commute)
  ultimately show ?case using Suc.IH[of "n div 10"]
    by (subst nat_digits.simps) simp
qed

lemma nat_digits_padded:
  "0 < k \<Longrightarrow> n < 10 ^ k \<Longrightarrow>
     length (nat_digits n) \<le> k \<and> padStart k CHR ''0'' (nat_digits n) = fixed_digits k n"
proof (induction k arbitrary: n)
  case 0
  then show ?case by simp
next
  case (Suc k)
  show ?case
  proof (cases "n < 10")
    case True
    then have "nat_digits n = [digit_char n]" by (subst nat_digits.simps) simp
    moreover from True have "n div 10 = 0" "n mod 10 = n" by simp_all
    ultimately show ?thesis
      by (simp add: padStart_def fixed_digits_zero)
  next
    case False
    then have nd: "nat_digits n = nat_digits (n div 10) @ [digit_char (n mod 10)]"
      by (subst nat_digits.simps) simp
    from False Suc.prems have k: "0 < k" by (cases k) auto
    from Suc.prems have "n div 10 < 10 ^ k" by (simp add: less_mult_imp_div_less mult.commute)
    from Suc.IH[OF k this] show ?thesis
      by (simp add: nd padStart_def)
  qed
qed

lemma js_lt_irrefl [simp]: "\<not> js_lt xs xs"
  by (induction xs) simp_all

lemma js_lt_append_same_length:
  "length xs = length ys \<Longrightarrow>
     js_lt (xs @ us) (ys @ vs) = (js_lt xs ys \<or> (xs = ys \<and> js_lt us vs))"
  by (induction xs ys rule: list_induct2) auto

lemma fixed_digits_inj:
  "a < 10 ^ k \<Longrightarrow> b < 10 ^ k \<Longrightarrow> fixed_digits k a = fixed_digits k b \<Longrightarrow> a = b"
proof (induction k arbitrary: a b)
  case 0
  then show ?case by simp
next
  case (Suc k)
  from Suc.prems have "a div 10 < 10 ^ k" "b div 10 < 10 ^ k"
    by (simp_all add: less_mult_imp_div_less mult.commute)
  moreover from Suc.prems(3) have "fixed_digits k (a div 10) = fixed_digits k (b div 10)"
    and "digit_char (a mod 10) = digit_char (b mod 10)" by simp_all
  ultimately have "a div 10 = b div 10" "a mod 10 = b mod 10"
    using Suc.IH digit_char_inj[of "a mod 10" "b mod 10"] by simp_all
  then show ?case by (metis div_mult_mod_eq)
qed

lemma div_mod_lex:
  "((a::nat) div 10 < b div 10 \<or> (a div 10 = b div 10 \<and> a mod 10 < b mod 10)) = (a < b)"
proof -
  define qa ra qb rb where "qa = a div 10" and "ra = a mod 10" and "qb = b div 10" and "rb = b mod 10"
  have a: "a = 10 * qa + ra" and b: "b = 10 * qb + rb" and r: "ra < 10" "rb < 10"
    by (simp_all add: qa_def ra_def qb_def rb_def)
  have "(qa < qb \<or> (qa = qb \<and> ra < rb)) = (a < b)"
    using r a b by linarith
  then show ?thesis
    by (simp only: qa_def ra_def qb_def rb_def)
qed

lemma js_lt_fixed_digits:
  "a < 10 ^ k \<Longrightarrow> b < 10 ^ k \<Longrightarrow> js_lt (fixed_digits k a) (fixed_digits k b) = (a < b)"
proof (induction k arbitrary: a b)
  case 0
  then show ?case by simp
next
  case (Suc k)
  from Suc.prems have bnd: "a div 10 < 10 ^ k" "b div 10 < 10 ^ k"
    by (simp_all add: less_mult_imp_div_less mult.commute)
  have last: "((of_char (digit_char (a mod 10)) :: nat) < of_char (digit_char (b mod 10))) =
      (a mod 10 < b mod 10)"
    by (simp add: digit_char_code)
  have eq: "(fixed_digits k (a div 10) = fixed_digits k (b div 10)) = (a div 10 = b div 10)"
    using fixed_digits_inj[OF bnd] by auto
  have "js_lt (fixed_digits (Suc k) a) (fixed_digits (Suc k) b) =
      (a div 10 < b div 10 \<or> (a div 10 = b div 10 \<and> a mod 10 < b mod 10))"
    by (simp add: js_lt_append_same_length Suc.IH[OF bnd] last eq)
  also have "\<dots> = (a < b)"
    by (rule div_mod_lex)
  finally show ?case .
qed

lemma dailyDate_regex_shape:
  assumes "dailyDate_regex s"
  obtains y1 y2 y3 y4 m1 m2 d1 d2 where
    "s = [y1, y2, y3, y4] @ CHR ''-'' # [m1, m2] @ CHR ''-'' # [d1, d2]"
    "list_all is_digit [y1, y2, y3, y4]" "list_all is_digit [m1, m2]" "list_all is_digit [d1, d2]"
  using assms by (cases s rule: dailyDate_regex.cases) simp_all

lemma split_at_hyphen:
  "list_all is_digit A \<Longrightarrow> list_all is_digit B \<Longrightarrow> A @ CHR ''-'' # R = B @ CHR ''-'' # R' \<Longrightarrow>
     A = B \<and> R = R'"
proof (induction A arbitrary: B)
  case Nil
  then show ?case by (cases B) (auto simp: hyphen_not_digit)
next
  case (Cons a A)
  then show ?case by (cases B) (auto simp: hyphen_not_digit)
qed

lemma String_num_nonneg: "0 \<le> i \<Longrightarrow> String_num i = nat_digits (nat i)"
  by (simp add: String_num_def)

lemma String_num_neg: "i < 0 \<Longrightarrow> String_num i = CHR ''-'' # nat_digits (nat (- i))"
  by (simp add: String_num_def)

lemma padStart_neg: "i < 0 \<Longrightarrow> padStart 2 c (String_num i) = CHR ''-'' # nat_digits (nat (- i))"
  using nat_digits_nonempty[of "nat (- i)"]
  by (cases "nat_digits (nat (- i))") (simp_all add: String_num_neg padStart_def)

lemma zeros_all_digits: "list_all is_digit (replicate n CHR ''0'')"
  by (induction n) (simp_all add: is_digit_def)

lemma padStart_all_digits: "0 \<le> i \<Longrightarrow> list_all is_digit (padStart 2 CHR ''0'' (String_num i))"
  by (simp add: String_num_nonneg padStart_def nat_digits_all_digits zeros_all_digits)

lemma four_digits:
  assumes "length (nat_digits n) = 4"
  shows "1000 \<le> n \<and> n < 10000 \<and> nat_digits n = fixed_digits 4 n"
proof -
  have lo: "1000 \<le> n"
  proof (rule ccontr)
    assume "\<not> 1000 \<le> n"
    then have "n < 10 ^ 3" by simp
    from nat_digits_padded[OF _ this] assms show False by simp
  qed
  have hi: "n < 10 ^ 4"
  proof (rule ccontr)
    assume "\<not> n < 10 ^ 4"
    then have "10 ^ 4 \<le> n" by simp
    from nat_digits_long[OF this] assms show False by simp
  qed
  from nat_digits_padded[OF _ hi] assms have "nat_digits n = fixed_digits 4 n"
    by (simp add: padStart_def)
  with lo hi show ?thesis by simp
qed

lemma two_digits:
  assumes "length (padStart 2 CHR ''0'' (nat_digits n)) = 2"
  shows "n < 100 \<and> padStart 2 CHR ''0'' (nat_digits n) = fixed_digits 2 n"
proof -
  have hi: "n < 10 ^ 2"
  proof (rule ccontr)
    assume "\<not> n < 10 ^ 2"
    then have "10 ^ 2 \<le> n" by simp
    from nat_digits_long[OF this] assms show False by (simp add: padStart_def)
  qed
  from nat_digits_padded[OF _ hi] hi show ?thesis by simp
qed

lemma formatDate_Inr_raw:
  assumes "formatDate tz t = Inr ds"
  shows "ds = String_num (getFullYear tz t) @ CHR ''-'' #
      padStart 2 CHR ''0'' (String_num (getMonth tz t + 1)) @ CHR ''-'' #
      padStart 2 CHR ''0'' (String_num (getDate tz t)) \<and> dailyDate_regex ds"
proof -
  define v where "v = String_num (getFullYear tz t) @ CHR ''-'' #
      padStart 2 CHR ''0'' (String_num (getMonth tz t + 1)) @ CHR ''-'' #
      padStart 2 CHR ''0'' (String_num (getDate tz t))"
  have "formatDate tz t = createDailyDate v"
    by (simp add: formatDate_def Let_def v_def)
  with assms have "createDailyDate v = Inr ds" by simp
  then have "dailyDate_regex v \<and> ds = v"
    unfolding createDailyDate_def by (cases "dailyDate_regex v") simp_all
  then show ?thesis by (simp add: v_def)
qed

lemma formatDate_Inr:
  assumes "formatDate tz t = Inr ds"
  obtains y m d where "localDate tz t = (int y, int m, int d)"
    "1000 \<le> y" "y < 10000" "m < 100" "d < 100"
    "ds = fixed_digits 4 y @ CHR ''-'' # fixed_digits 2 m @ CHR ''-'' # fixed_digits 2 d"
proof -
  define yi mi di where "yi = getFullYear tz t" and "mi = getMonth tz t + 1" and "di = getDate tz t"
  define Y M D where "Y = String_num yi" and "M = padStart 2 CHR ''0'' (String_num mi)"
    and "D = padStart 2 CHR ''0'' (String_num di)"
  from formatDate_Inr_raw[OF assms]
  have ds: "ds = Y @ CHR ''-'' # M @ CHR ''-'' # D" and re: "dailyDate_regex ds"
    unfolding Y_def M_def D_def yi_def mi_def di_def by blast+
  from re obtain y1 y2 y3 y4 m1 m2 d1 d2 where
    shape: "ds = [y1, y2, y3, y4] @ CHR ''-'' # [m1, m2] @ CHR ''-'' # [d1, d2]"
    and dy: "list_all is_digit [y1, y2, y3, y4]" and dm: "list_all is_digit [m1, m2]"
    and dd: "list_all is_digit [d1, d2]"
    by (rule dailyDate_regex_shape)
  have y0: "0 \<le> yi"
  proof (rule ccontr)
    assume "\<not> 0 \<le> yi"
    then have "Y = CHR ''-'' # nat_digits (nat (- yi))" by (simp add: Y_def String_num_neg)
    with ds shape have "y1 = CHR ''-''" by simp
    with dy show False by (simp add: hyphen_not_digit)
  qed
  then have Yd: "list_all is_digit Y" by (simp add: Y_def String_num_nonneg nat_digits_all_digits)
  have "Y @ CHR ''-'' # (M @ CHR ''-'' # D) = [y1, y2, y3, y4] @ CHR ''-'' # ([m1, m2] @ CHR ''-'' # [d1, d2])"
    using ds shape by simp
  from split_at_hyphen[OF Yd dy this]
  have Y: "Y = [y1, y2, y3, y4]" and rest: "M @ CHR ''-'' # D = [m1, m2] @ CHR ''-'' # [d1, d2]"
    by simp_all
  have m0: "0 \<le> mi"
  proof (rule ccontr)
    assume "\<not> 0 \<le> mi"
    then have "M = CHR ''-'' # nat_digits (nat (- mi))" by (simp add: M_def padStart_neg)
    with rest have "m1 = CHR ''-''" by simp
    with dm show False by (simp add: hyphen_not_digit)
  qed
  then have Md: "list_all is_digit M" by (simp add: M_def padStart_all_digits)
  from split_at_hyphen[OF Md dm rest]
  have M: "M = [m1, m2]" and D: "D = [d1, d2]" by simp_all
  have d0: "0 \<le> di"
  proof (rule ccontr)
    assume "\<not> 0 \<le> di"
    then have "D = CHR ''-'' # nat_digits (nat (- di))" by (simp add: D_def padStart_neg)
    with D have "d1 = CHR ''-''" by simp
    with dd show False by (simp add: hyphen_not_digit)
  qed
  have "length (nat_digits (nat yi)) = 4" using Y y0 by (simp add: Y_def String_num_nonneg)
  from four_digits[OF this] have y: "1000 \<le> nat yi" "nat yi < 10000" "Y = fixed_digits 4 (nat yi)"
    using y0 by (simp_all add: Y_def String_num_nonneg)
  have "length (padStart 2 CHR ''0'' (nat_digits (nat mi))) = 2"
    using M m0 by (simp add: M_def String_num_nonneg)
  from two_digits[OF this] have m: "nat mi < 100" "M = fixed_digits 2 (nat mi)"
    using m0 by (simp_all add: M_def String_num_nonneg)
  have "length (padStart 2 CHR ''0'' (nat_digits (nat di))) = 2"
    using D d0 by (simp add: D_def String_num_nonneg)
  from two_digits[OF this] have d: "nat di < 100" "D = fixed_digits 2 (nat di)"
    using d0 by (simp_all add: D_def String_num_nonneg)
  have "localDate tz t = (int (nat yi), int (nat mi), int (nat di))"
    using y0 m0 d0 by (simp add: localDate_def yi_def mi_def di_def)
  then show ?thesis
    using y m d ds by (intro that[of "nat yi" "nat mi" "nat di"]) simp_all
qed

subsection \<open>String order\<close>

lemma js_lt_trans: "js_lt a b \<Longrightarrow> js_lt b c \<Longrightarrow> js_lt a c"
proof (induction a arbitrary: b c)
  case Nil
  then show ?case by (cases b; cases c) simp_all
next
  case (Cons x a)
  from Cons.prems obtain y b' where b: "b = y # b'" by (cases b) auto
  from Cons.prems b obtain z c' where c: "c = z # c'" by (cases c) auto
  from Cons.prems Cons.IH[of b' c'] show ?case unfolding b c by auto
qed

lemma js_lt_asym: "js_lt a b \<Longrightarrow> \<not> js_lt b a"
  using js_lt_trans[of a b a] by auto

lemma js_lt_total: "\<not> js_lt a b \<Longrightarrow> \<not> js_lt b a \<Longrightarrow> a = b"
proof (induction a arbitrary: b)
  case Nil
  then show ?case by (cases b) simp_all
next
  case (Cons x a)
  then obtain y b' where b: "b = y # b'" by (cases b) auto
  from Cons.prems have "(of_char x :: nat) = of_char y" unfolding b by auto
  then have "x = y" by simp
  with Cons.prems Cons.IH[of b'] show ?case unfolding b by auto
qed

lemma js_ge_trans: "\<not> js_lt a b \<Longrightarrow> \<not> js_lt b c \<Longrightarrow> \<not> js_lt a c"
  using js_lt_total[of b c] js_lt_trans[of a c b] by blast

lemma localeCompare_le0: "(localeCompare a b \<le> 0) = (\<not> js_lt b a)"
  using js_lt_asym[of a b] by (auto simp: localeCompare_def)

subsection \<open>Array.prototype.sort\<close>

lemma mset_insert_by: "mset (insert_by cmp x ys) = add_mset x (mset ys)"
  by (induction ys) simp_all

lemma mset_Array_sort: "mset (Array_sort cmp xs) = mset xs"
  unfolding Array_sort_def by (induction xs) (simp_all add: mset_insert_by)

lemma set_insert_by: "set (insert_by cmp x ys) = insert x (set ys)"
  by (induction ys) auto

lemma set_Array_sort: "set (Array_sort cmp xs) = set xs"
  using mset_Array_sort[of cmp xs] by (metis set_mset_mset)

lemma sum_list_Array_sort:
  "sum_list (map f (Array_sort cmp xs)) = (sum_list (map f xs) :: nat)"
proof -
  have "mset (map f (Array_sort cmp xs)) = mset (map f xs)"
    by (simp add: mset_Array_sort)
  then show ?thesis by (metis sum_mset_sum_list)
qed

lemma sorted_insert_by:
  assumes tot: "\<And>x y. \<not> R x y \<Longrightarrow> R y x"
    and tr: "\<And>x y z. R x y \<Longrightarrow> R y z \<Longrightarrow> R x z"
    and cmp: "\<And>x y. (cmp x y \<le> 0) = R x y"
  shows "sorted_wrt R ys \<Longrightarrow> sorted_wrt R (insert_by cmp x ys)"
proof (induction ys)
  case Nil
  then show ?case by simp
next
  case (Cons y ys)
  show ?case
  proof (cases "R x y")
    case True
    with Cons.prems tr show ?thesis by (auto simp: cmp)
  next
    case False
    then have "R y x" by (rule tot)
    with False Cons show ?thesis by (auto simp: cmp set_insert_by)
  qed
qed

lemma sorted_Array_sort:
  assumes "\<And>x y. \<not> R x y \<Longrightarrow> R y x"
    and "\<And>x y z. R x y \<Longrightarrow> R y z \<Longrightarrow> R x z"
    and "\<And>x y. (cmp x y \<le> 0) = R x y"
  shows "sorted_wrt R (Array_sort cmp xs)"
  unfolding Array_sort_def
  by (induction xs) (simp_all add: sorted_insert_by[where R = R, OF assms])

lemma conversations_sorted:
  "sorted_wrt (\<lambda>a b. \<not> js_lt (date a) (date b))
     (Array_sort (\<lambda>a b. localeCompare (date b) (date a)) cs)"
proof (rule sorted_Array_sort)
  show "\<And>x y. \<not> \<not> js_lt (date x) (date y) \<Longrightarrow> \<not> js_lt (date y) (date x)"
    by (simp add: js_lt_asym)
  show "\<And>x y z. \<not> js_lt (date x) (date y) \<Longrightarrow> \<not> js_lt (date y) (date z) \<Longrightarrow> \<not> js_lt (date x) (date z)"
    by (rule js_ge_trans)
  show "\<And>x y. (localeCompare (date y) (date x) \<le> 0) = (\<not> js_lt (date x) (date y))"
    by (rule localeCompare_le0)
qed

section \<open>Grouping, filtering and summaries\<close>

subsection \<open>Grouping\<close>

lemma Map_set_absent: "\<not> Map_has m k \<Longrightarrow> Map_set m k v = m @ [(k, v)]"
  by (induction m) (auto simp: Map_has_def)

lemma Map_push_absent: "\<not> Map_has m k \<Longrightarrow> Map_push m k x = m"
  by (induction m) (auto simp: Map_has_def)

lemma Map_push_new: "\<not> Map_has m k \<Longrightarrow> Map_push (m @ [(k, v)]) k x = m @ [(k, v @ [x])]"
  by (induction m) (auto simp: Map_has_def)

lemma group_size_push: "Map_has m k \<Longrightarrow> group_size (Map_push m k x) = Suc (group_size m)"
  by (induction m) (auto simp: Map_has_def group_size_def)

text \<open>One iteration of the grouping loop, once the date is known.\<close>

lemma group_step_cases:
  "(Map_has g d \<and> Map_push (if \<not> Map_has g d then Map_set g d [] else g) d e = Map_push g d e) \<or>
   (\<not> Map_has g d \<and> Map_push (if \<not> Map_has g d then Map_set g d [] else g) d e = g @ [(d, [e])])"
  by (cases "Map_has g d") (simp_all add: Map_set_absent Map_push_new)

lemma group_size_step:
  "group_size (Map_push (if \<not> Map_has g d then Map_set g d [] else g) d e) = Suc (group_size g)"
  using group_step_cases[of g d e]
  by (auto simp: group_size_push) (simp add: group_size_def)

lemma group_loop_size:
  "group_loop tz es g = Inr g' \<Longrightarrow> group_size g' = group_size g + length es"
proof (induction es arbitrary: g)
  case Nil
  then show ?case by simp
next
  case (Cons e es)
  from Cons.prems obtain d where d: "formatDate tz (timestamp e) = Inr d"
    by (cases "formatDate tz (timestamp e)") simp_all
  with Cons.prems
  have "group_loop tz es (Map_push (if \<not> Map_has g d then Map_set g d [] else g) d e) = Inr g'"
    by (simp add: Let_def)
  from Cons.IH[OF this] show ?case by (simp add: group_size_step)
qed

lemma messageCount_summarize: "messageCount (summarize tz d es) = length es"
  by (simp add: summarize_def Let_def length_sortEntries)

lemma date_summarize: "date (summarize tz d es) = d"
  by (simp add: summarize_def Let_def)

lemma summary_loop_count:
  "sum_list (map messageCount (summary_loop tz g)) = group_size g"
  by (induction g) (auto simp: group_size_def messageCount_summarize)

subsection \<open>Date filter\<close>

lemma YYYYMMDD_nonempty: "YYYYMMDD a \<noteq> []"
proof -
  have "length (YYYYMMDD a) = 8" by (cases a) (simp add: YYYYMMDD_def)
  then show ?thesis by auto
qed

lemma truthy_YYYYMMDD: "truthy (map_option YYYYMMDD s) = (s \<noteq> None)"
  by (cases s) (simp_all add: truthy_def YYYYMMDD_nonempty)

lemma remove_hyphens_digits: "list_all is_digit xs \<Longrightarrow> filter (\<lambda>c. c \<noteq> CHR ''-'') xs = xs"
  by (induction xs) (auto simp: hyphen_not_digit)

lemma remove_hyphens_date:
  "filter (\<lambda>c. c \<noteq> CHR ''-'')
     (fixed_digits 4 y @ CHR ''-'' # fixed_digits 2 m @ CHR ''-'' # fixed_digits 2 d) =
   fixed_digits 4 y @ fixed_digits 2 m @ fixed_digits 2 d"
  by (simp add: remove_hyphens_digits fixed_digits_all_digits)

lemma js_lt_compact:
  assumes "y < 10000" "m < 100" "d < 100" "y' < 10000" "m' < 100" "d' < 100"
  shows "js_lt (fixed_digits 4 y @ fixed_digits 2 m @ fixed_digits 2 d)
      (fixed_digits 4 y' @ fixed_digits 2 m' @ fixed_digits 2 d') =
    (y < y' \<or> (y = y' \<and> (m < m' \<or> (m = m' \<and> d < d'))))"
proof -
  have y: "js_lt (fixed_digits 4 y) (fixed_digits 4 y') = (y < y')"
    and ye: "(fixed_digits 4 y = fixed_digits 4 y') = (y = y')"
    using assms js_lt_fixed_digits[of y 4 y'] fixed_digits_inj[of y 4 y'] by auto
  have m: "js_lt (fixed_digits 2 m) (fixed_digits 2 m') = (m < m')"
    and me: "(fixed_digits 2 m = fixed_digits 2 m') = (m = m')"
    using assms js_lt_fixed_digits[of m 2 m'] fixed_digits_inj[of m 2 m'] by auto
  have d: "js_lt (fixed_digits 2 d) (fixed_digits 2 d') = (d < d')"
    using assms js_lt_fixed_digits[of d 2 d'] by auto
  have d0: "js_lt (fixed_digits 2 d @ []) (fixed_digits 2 d' @ []) = (d < d')"
    using d by simp
  show ?thesis
    by (simp only: js_lt_append_same_length length_fixed_digits y ye m me d)
qed

lemma js_lt_hyphenated:
  assumes "y < 10000" "m < 100" "d < 100" "y' < 10000" "m' < 100" "d' < 100"
  shows "js_lt (fixed_digits 4 y @ CHR ''-'' # fixed_digits 2 m @ CHR ''-'' # fixed_digits 2 d)
      (fixed_digits 4 y' @ CHR ''-'' # fixed_digits 2 m' @ CHR ''-'' # fixed_digits 2 d') =
    (y < y' \<or> (y = y' \<and> (m < m' \<or> (m = m' \<and> d < d'))))"
proof -
  have y: "js_lt (fixed_digits 4 y) (fixed_digits 4 y') = (y < y')"
    and ye: "(fixed_digits 4 y = fixed_digits 4 y') = (y = y')"
    using assms js_lt_fixed_digits[of y 4 y'] fixed_digits_inj[of y 4 y'] by auto
  have m: "js_lt (fixed_digits 2 m) (fixed_digits 2 m') = (m < m')"
    and me: "(fixed_digits 2 m = fixed_digits 2 m') = (m = m')"
    using assms js_lt_fixed_digits[of m 2 m'] fixed_digits_inj[of m 2 m'] by auto
  have d: "js_lt (fixed_digits 2 d) (fixed_digits 2 d') = (d < d')"
    using assms js_lt_fixed_digits[of d 2 d'] by auto
  have h: "js_lt (CHR ''-'' # us) (CHR ''-'' # vs) = js_lt us vs" for us vs by simp
  show ?thesis
    by (simp only: js_lt_append_same_length length_fixed_digits y ye m me d h)
qed

lemma is_date_in_digits: "is_date a \<Longrightarrow> in_digits a"
  by (cases a) (simp add: is_date_def in_digits_def)

lemma js_lt_YYYYMMDD:
  assumes "in_digits a" "in_digits b"
  shows "js_lt (YYYYMMDD a) (YYYYMMDD b) = date_lt a b"
proof -
  obtain y m d where a: "a = (y, m, d)" by (cases a)
  obtain y' m' d' where b: "b = (y', m', d')" by (cases b)
  from assms have r: "nat y < 10000" "nat m < 100" "nat d < 100"
      "nat y' < 10000" "nat m' < 100" "nat d' < 100"
    and nn: "0 \<le> y" "0 \<le> m" "0 \<le> d" "0 \<le> y'" "0 \<le> m'" "0 \<le> d'"
    by (auto simp: a b in_digits_def)
  have "js_lt (YYYYMMDD a) (YYYYMMDD b) =
      (nat y < nat y' \<or> (nat y = nat y' \<and> (nat m < nat m' \<or> (nat m = nat m' \<and> nat d < nat d'))))"
    unfolding a b YYYYMMDD_def prod.case by (rule js_lt_compact[OF r])
  also have "\<dots> = date_lt a b"
    using nn unfolding a b date_lt_def prod.case by linarith
  finally show ?thesis .
qed

lemma date_le_iff: "date_le a b = (\<not> date_lt b a)"
  by (cases a; cases b) (auto simp: date_le_def date_lt_def)

lemma formatDate_compact:
  assumes "formatDate tz t = Inr ds"
  shows "filter (\<lambda>c. c \<noteq> CHR ''-'') ds = YYYYMMDD (localDate tz t) \<and> in_digits (localDate tz t)"
proof -
  from assms obtain y m d where ld: "localDate tz t = (int y, int m, int d)"
    and r: "1000 \<le> y" "y < 10000" "m < 100" "d < 100"
    and ds: "ds = fixed_digits 4 y @ CHR ''-'' # fixed_digits 2 m @ CHR ''-'' # fixed_digits 2 d"
    by (rule formatDate_Inr)
  have "filter (\<lambda>c. c \<noteq> CHR ''-'') ds = fixed_digits 4 y @ fixed_digits 2 m @ fixed_digits 2 d"
    unfolding ds by (rule remove_hyphens_date)
  then show ?thesis
    using r by (simp add: ld YYYYMMDD_def in_digits_def)
qed

lemma keepEntry_range:
  assumes fd: "formatDate tz (timestamp e) = Inr ds"
    and s: "case s of None \<Rightarrow> True | Some d \<Rightarrow> is_date d"
    and u: "case u of None \<Rightarrow> True | Some d \<Rightarrow> is_date d"
  shows "keepEntry tz \<lparr>since = map_option YYYYMMDD s, until = map_option YYYYMMDD u\<rparr> e =
    Inr (within_range s u (localDate tz (timestamp e)))"
proof -
  from formatDate_compact[OF fd]
  have c: "filter (\<lambda>c. c \<noteq> CHR ''-'') ds = YYYYMMDD (localDate tz (timestamp e))"
    and x: "in_digits (localDate tz (timestamp e))" by simp_all
  have lo: "js_lt (YYYYMMDD (localDate tz (timestamp e))) (YYYYMMDD d) =
      (\<not> date_le d (localDate tz (timestamp e)))" if "s = Some d" for d
    using s x that by (simp add: js_lt_YYYYMMDD is_date_in_digits date_le_iff)
  have hi: "js_lt (YYYYMMDD d) (YYYYMMDD (localDate tz (timestamp e))) =
      (\<not> date_le (localDate tz (timestamp e)) d)" if "u = Some d" for d
    using u x that by (simp add: js_lt_YYYYMMDD is_date_in_digits date_le_iff)
  show ?thesis
    using lo hi
    by (cases s; cases u)
      (simp_all add: keepEntry_def fd c Let_def truthy_def YYYYMMDD_nonempty within_range_def)
qed

lemma keepEntry_Inr:
  "keepEntry tz opts e = Inr b \<Longrightarrow> \<exists>ds. formatDate tz (timestamp e) = Inr ds"
  by (cases "formatDate tz (timestamp e)") (simp_all add: keepEntry_def)

lemma filter_loop_Inr:
  "filter_loop tz opts es = Inr kept \<Longrightarrow>
     (\<forall>e \<in> set es. \<exists>b. keepEntry tz opts e = Inr b) \<and>
     kept = filter (\<lambda>e. keepEntry tz opts e = Inr True) es"
proof (induction es arbitrary: kept)
  case Nil
  then show ?case by simp
next
  case (Cons e es)
  from Cons.prems obtain b where b: "keepEntry tz opts e = Inr b"
    by (cases "keepEntry tz opts e") simp_all
  with Cons.prems obtain k where k: "filter_loop tz opts es = Inr k"
    by (cases "filter_loop tz opts es") simp_all
  from Cons.prems b k have kept: "kept = (if b then e # k else k)" by simp
  from Cons.IH[OF k] b show ?case by (auto simp: kept)
qed

lemma filteredEntries_range:
  assumes f: "filteredEntries tz \<lparr>since = map_option YYYYMMDD s, until = map_option YYYYMMDD u\<rparr> loaded =
      Inr kept"
    and s: "case s of None \<Rightarrow> True | Some d \<Rightarrow> is_date d"
    and u: "case u of None \<Rightarrow> True | Some d \<Rightarrow> is_date d"
  shows "kept = filter (\<lambda>e. within_range s u (localDate tz (timestamp e))) loaded"
proof (cases "s = None \<and> u = None")
  case True
  with f show ?thesis
    by (simp add: filteredEntries_def truthy_def within_range_def)
next
  case False
  define opts where "opts = \<lparr>since = map_option YYYYMMDD s, until = map_option YYYYMMDD u\<rparr>"
  from False f have "filter_loop tz opts loaded = Inr kept"
    by (auto simp: filteredEntries_def truthy_YYYYMMDD opts_def)
  from filter_loop_Inr[OF this]
  have ok: "\<forall>e \<in> set loaded. \<exists>b. keepEntry tz opts e = Inr b"
    and kept: "kept = filter (\<lambda>e. keepEntry tz opts e = Inr True) loaded" by simp_all
  have "(keepEntry tz opts e = Inr True) = within_range s u (localDate tz (timestamp e))"
    if "e \<in> set loaded" for e
  proof -
    from ok that obtain b where "keepEntry tz opts e = Inr b" by blast
    then obtain ds where "formatDate tz (timestamp e) = Inr ds"
      using keepEntry_Inr by blast
    from keepEntry_range[OF this s u] show ?thesis by (simp add: opts_def)
  qed
  then show ?thesis unfolding kept by (simp cong: filter_cong)
qed

lemma load_Inr_parts:
  assumes "loadDailyConversationData tz opts loaded = Inr r"
  obtains g where "filteredEntries tz opts loaded = Inr (allEntries r)"
    "group_loop tz (allEntries r) [] = Inr g"
    "conversations r = Array_sort (\<lambda>a b. localeCompare (date b) (date a)) (summary_loop tz g)"
proof -
  from assms obtain filtered where f: "filteredEntries tz opts loaded = Inr filtered"
    by (cases "filteredEntries tz opts loaded") (simp_all add: loadDailyConversationData_def)
  with assms obtain g where g: "group_loop tz filtered [] = Inr g"
    by (cases "group_loop tz filtered []") (simp_all add: loadDailyConversationData_def)
  from assms f g have r: "r = \<lparr>conversations =
      Array_sort (\<lambda>a b. localeCompare (date b) (date a)) (summary_loop tz g),
      allEntries = filtered\<rparr>"
    by (simp add: loadDailyConversationData_def)
  show thesis by (rule that[of g]) (simp_all add: r f g)
qed

lemma groups_okD:
  "groups_ok tz S g \<Longrightarrow> (d, es) \<in> set g \<Longrightarrow>
     es \<noteq> [] \<and> (\<forall>e \<in> set es. e \<in> S \<and> formatDate tz (timestamp e) = Inr d)"
  unfolding groups_ok_def by blast

lemma Map_push_elem:
  "(k, v) \<in> set (Map_push g d e) \<Longrightarrow>
     (k, v) \<in> set g \<or> (k = d \<and> (\<exists>v0. (d, v0) \<in> set g \<and> v = v0 @ [e]))"
  by (induction g) (auto split: if_splits)

lemma groups_ok_step:
  assumes ok: "groups_ok tz S g" and e: "e \<in> S" and d: "formatDate tz (timestamp e) = Inr d"
  shows "groups_ok tz S (Map_push (if \<not> Map_has g d then Map_set g d [] else g) d e)"
proof (cases "Map_has g d")
  case True
  then have eq: "Map_push (if \<not> Map_has g d then Map_set g d [] else g) d e = Map_push g d e"
    by simp
  show ?thesis
    unfolding eq groups_ok_def
  proof (clarify)
    fix k v
    assume "(k, v) \<in> set (Map_push g d e)"
    from Map_push_elem[OF this] e d groups_okD[OF ok]
    show "v \<noteq> [] \<and> (\<forall>x \<in> set v. x \<in> S \<and> formatDate tz (timestamp x) = Inr k)"
      by fastforce
  qed
next
  case False
  then have eq: "Map_push (if \<not> Map_has g d then Map_set g d [] else g) d e = g @ [(d, [e])]"
    by (simp add: Map_set_absent Map_push_new)
  from ok e d show ?thesis
    unfolding eq by (auto simp: groups_ok_def)
qed

lemma group_loop_ok:
  "group_loop tz es g = Inr g' \<Longrightarrow> groups_ok tz S g \<Longrightarrow> set es \<subseteq> S \<Longrightarrow> groups_ok tz S g'"
proof (induction es arbitrary: g)
  case Nil
  then show ?case by simp
next
  case (Cons e es)
  from Cons.prems obtain d where d: "formatDate tz (timestamp e) = Inr d"
    by (cases "formatDate tz (timestamp e)") simp_all
  with Cons.prems
  have run: "group_loop tz es (Map_push (if \<not> Map_has g d then Map_set g d [] else g) d e) = Inr g'"
    by (simp add: Let_def)
  from Cons.prems have "e \<in> S" "set es \<subseteq> S" by simp_all
  from Cons.IH[OF run groups_ok_step[OF Cons.prems(2) this(1) d] this(2)] show ?case .
qed

lemma summary_loop_dates:
  "c \<in> set (summary_loop tz g) \<Longrightarrow> \<exists>(d, es) \<in> set g. es \<noteq> [] \<and> date c = d"
  by (induction g) (auto simp: date_summarize split: if_splits)

lemma formatDate_order:
  assumes "formatDate tz t = Inr a" and "formatDate tz t' = Inr b"
  shows "js_lt a b = date_lt (localDate tz t) (localDate tz t')"
proof -
  from assms(1) obtain y m d where ld: "localDate tz t = (int y, int m, int d)"
    and r: "y < 10000" "m < 100" "d < 100"
    and a: "a = fixed_digits 4 y @ CHR ''-'' # fixed_digits 2 m @ CHR ''-'' # fixed_digits 2 d"
    by (rule formatDate_Inr)
  from assms(2) obtain y' m' d' where ld': "localDate tz t' = (int y', int m', int d')"
    and r': "y' < 10000" "m' < 100" "d' < 100"
    and b: "b = fixed_digits 4 y' @ CHR ''-'' # fixed_digits 2 m' @ CHR ''-'' # fixed_digits 2 d'"
    by (rule formatDate_Inr)
  have "js_lt a b = (y < y' \<or> (y = y' \<and> (m < m' \<or> (m = m' \<and> d < d'))))"
    unfolding a b by (rule js_lt_hyphenated[OF r r'])
  then show ?thesis by (simp add: ld ld' date_lt_def)
qed

section \<open>The properties of the specification\<close>

text \<open>
  Claim C1. Take any two consecutive events of the sorted input, at the indices \<open>i - 1\<close>
  and \<open>i\<close>. When the loop reaches index \<open>i\<close>, the end of the current session is the
  time of the event before. If the time of the event at \<open>i\<close> is at most the gap later
  (the boundary included), the event extends the current session: only its end moves, to
  that time. If it is more than the gap later, the current session is closed as it stands,
  and the new current session starts and ends at that time. The list that
  \<^const>\<open>segment\<close> returns is the closed sessions of the last state and its open one.
  The gap of \<^const>\<open>calculateConversationTime\<close> is \<^const>\<open>SESSION_GAP_MS\<close>, 180000 ms.
\<close>

theorem segment_consecutive_events:
  fixes entries :: "'a stamped_scheme list" and gap :: int
  assumes "1 \<le> i" and "i < length entries"
  defines "srt \<equiv> sortEntries entries"
  defines "st \<equiv> loop_state gap srt i"
  defines "currentTime \<equiv> timestamp (srt ! i)"
  shows "currentSessionEnd st = timestamp (srt ! (i - 1)) \<and>
    (currentTime - currentSessionEnd st \<le> gap \<longrightarrow>
       loop_state gap srt (Suc i) = st\<lparr>currentSessionEnd := currentTime\<rparr>) \<and>
    (gap < currentTime - currentSessionEnd st \<longrightarrow>
       loop_state gap srt (Suc i) =
         \<lparr>sessions = sessions st @
            [\<lparr>session_start = currentSessionStart st, session_end = currentSessionEnd st\<rparr>],
          currentSessionStart = currentTime, currentSessionEnd = currentTime\<rparr>) \<and>
    segment gap srt = close_state (loop_state gap srt (length srt))"
proof -
  have len: "i < length srt" using assms by (simp add: length_sortEntries)
  have "srt \<noteq> []" using len by auto
  then show ?thesis
    using loop_state_end[OF assms(1) len, of gap] loop_state_Suc[OF assms(1) len, of gap]
    by (simp add: st_def currentTime_def segment_step_def Let_def loop_state_final)
qed

theorem segment_consecutive_events_witness:
  "loop_state SESSION_GAP_MS
      (sortEntries [\<lparr>timestamp = 360001\<rparr>, \<lparr>timestamp = 0\<rparr>, \<lparr>timestamp = 180000\<rparr>]) 2 =
     \<lparr>sessions = [], currentSessionStart = 0, currentSessionEnd = 180000\<rparr> \<and>
   loop_state SESSION_GAP_MS
      (sortEntries [\<lparr>timestamp = 360001\<rparr>, \<lparr>timestamp = 0\<rparr>, \<lparr>timestamp = 180000\<rparr>]) 3 =
     \<lparr>sessions = [\<lparr>session_start = 0, session_end = 180000\<rparr>],
      currentSessionStart = 360001, currentSessionEnd = 360001\<rparr> \<and>
   segment SESSION_GAP_MS
      (sortEntries [\<lparr>timestamp = 360001\<rparr>, \<lparr>timestamp = 0\<rparr>, \<lparr>timestamp = 180000\<rparr>]) =
     [\<lparr>session_start = 0, session_end = 180000\<rparr>,
      \<lparr>session_start = 360001, session_end = 360001\<rparr>]"
proof -
  define es :: "stamped list" where
    "es = [\<lparr>timestamp = 360001\<rparr>, \<lparr>timestamp = 0\<rparr>, \<lparr>timestamp = 180000\<rparr>]"
  have srt: "sortEntries es = [\<lparr>timestamp = 0\<rparr>, \<lparr>timestamp = 180000\<rparr>, \<lparr>timestamp = 360001\<rparr>]"
    by (simp add: es_def sortEntries_def Array_sort_def)
  have len: "(1::nat) \<le> 1" "1 < length es" "(1::nat) \<le> 2" "2 < length es"
    by (simp_all add: es_def)
  have st1: "loop_state SESSION_GAP_MS (sortEntries es) 1 =
      \<lparr>sessions = [], currentSessionStart = 0, currentSessionEnd = 0\<rparr>"
    by (simp add: srt loop_state_def initial_state_def)
  have st2: "loop_state SESSION_GAP_MS (sortEntries es) 2 =
      \<lparr>sessions = [], currentSessionStart = 0, currentSessionEnd = 180000\<rparr>"
    using segment_consecutive_events[OF len(1,2), of SESSION_GAP_MS] st1
    by (simp add: srt SESSION_GAP_MS_def numeral_2_eq_2)
  have st3: "loop_state SESSION_GAP_MS (sortEntries es) 3 =
      \<lparr>sessions = [\<lparr>session_start = 0, session_end = 180000\<rparr>],
       currentSessionStart = 360001, currentSessionEnd = 360001\<rparr>"
    and fin: "segment SESSION_GAP_MS (sortEntries es) =
      close_state (loop_state SESSION_GAP_MS (sortEntries es) (length (sortEntries es)))"
    using segment_consecutive_events[OF len(3,4), of SESSION_GAP_MS] st2
    by (simp_all add: srt SESSION_GAP_MS_def numeral_3_eq_3 numeral_2_eq_2)
  have "length (sortEntries es) = 3" by (simp add: srt)
  with fin st3 have "segment SESSION_GAP_MS (sortEntries es) =
     [\<lparr>session_start = 0, session_end = 180000\<rparr>,
      \<lparr>session_start = 360001, session_end = 360001\<rparr>]"
    by (simp add: close_state_def)
  with st2 st3 show ?thesis by (simp add: es_def)
qed

text \<open>
  Claim C2. For a non-empty group of events the rendered total is the rendering of the sum,
  over the sessions of the group, of the larger of 1 and the whole minutes between the start
  and the end of the session. A group of exactly one event gives \<open>1m\<close>.
\<close>

theorem total_duration_is_sum:
  fixes entries :: "'a stamped_scheme list"
  assumes "entries \<noteq> []"
  shows "calculateConversationTime entries =
      render_minutes (\<Sum>s \<leftarrow> segment SESSION_GAP_MS (sortEntries entries).
         max 1 ((session_end s - session_start s) div 60000)) \<and>
    (length entries = 1 \<longrightarrow> calculateConversationTime entries = ''1m'')"
proof (cases "length entries = 1")
  case True
  then obtain e where "entries = [e]" by (cases entries) auto
  then show ?thesis
    by (simp add: calculateConversationTime_def sortEntries_single segment_single render_1)
next
  case False
  with assms have "calculateConversationTime entries =
      render_minutes (totalMinutes_of (segment SESSION_GAP_MS (sortEntries entries)))"
    by (simp add: calculateConversationTime_def)
  with False show ?thesis
    by (simp add: totalMinutes_of_sum sessionMinutes_def[abs_def] Let_def)
qed

theorem total_duration_is_sum_witness:
  "[\<lparr>timestamp = 0\<rparr>, \<lparr>timestamp = 180000\<rparr>, \<lparr>timestamp = 9360000\<rparr>] \<noteq> [] \<and>
   calculateConversationTime [\<lparr>timestamp = 0\<rparr>, \<lparr>timestamp = 180000\<rparr>, \<lparr>timestamp = 9360000\<rparr>] =
     render_minutes (\<Sum>s \<leftarrow> [\<lparr>session_start = 0, session_end = 180000\<rparr>,
        \<lparr>session_start = 9360000, session_end = 9360000\<rparr>].
        max 1 ((session_end s - session_start s) div 60000)) \<and>
   calculateConversationTime [\<lparr>timestamp = 7\<rparr>] = ''1m''"
proof -
  define es :: "stamped list" where
    "es = [\<lparr>timestamp = 0\<rparr>, \<lparr>timestamp = 180000\<rparr>, \<lparr>timestamp = 9360000\<rparr>]"
  have ne: "es \<noteq> []" "[\<lparr>timestamp = 7\<rparr>] \<noteq> []" by (simp_all add: es_def)
  have seg: "segment SESSION_GAP_MS (sortEntries es) =
      [\<lparr>session_start = 0, session_end = 180000\<rparr>,
       \<lparr>session_start = 9360000, session_end = 9360000\<rparr>]"
    by (simp add: es_def sortEntries_def Array_sort_def segment_def initial_state_def
        segment_step_def close_state_def SESSION_GAP_MS_def Let_def)
  from total_duration_is_sum[OF ne(1)]
  have a: "calculateConversationTime es =
     render_minutes (\<Sum>s \<leftarrow> [\<lparr>session_start = 0, session_end = 180000\<rparr>,
        \<lparr>session_start = 9360000, session_end = 9360000\<rparr>].
        max 1 ((session_end s - session_start s) div 60000))"
    unfolding seg by blast
  have "length [\<lparr>timestamp = 7\<rparr>] = 1" by simp
  with total_duration_is_sum[OF ne(2)]
  have b: "calculateConversationTime [\<lparr>timestamp = 7\<rparr>] = ''1m''" by blast
  from a b ne(1) show ?thesis unfolding es_def by blast
qed

text \<open>
  Claim C3, as amended. Two events five minutes apart are more than the gap of three
  minutes apart: segmentation produces two sessions of one event each, and the total
  is rendered as \<open>2m\<close>, whatever the time \<open>t\<close> of the first event is.
\<close>

theorem five_minute_gap_two_sessions:
  "segment SESSION_GAP_MS (sortEntries [\<lparr>timestamp = t\<rparr>, \<lparr>timestamp = t + 5 * 60 * 1000\<rparr>]) =
     [\<lparr>session_start = t, session_end = t\<rparr>,
      \<lparr>session_start = t + 5 * 60 * 1000, session_end = t + 5 * 60 * 1000\<rparr>] \<and>
   calculateConversationTime [\<lparr>timestamp = t\<rparr>, \<lparr>timestamp = t + 5 * 60 * 1000\<rparr>] = ''2m''"
  unfolding calculateConversationTime_def sortEntries_five_minutes segment_five_minutes
  by (simp add: totalMinutes_of_def sessionMinutes_def render_2 Let_def)

text \<open>
  Claim C4. When the aggregation returns, the message counts of its daily summaries add up
  to the number of the filtered entries, which are the entries it returns as
  \<open>allEntries\<close>.
\<close>

theorem messageCount_total:
  assumes "loadDailyConversationData tz opts loaded = Inr r"
  shows "(\<Sum>c \<leftarrow> conversations r. messageCount c) = length (allEntries r) \<and>
    filteredEntries tz opts loaded = Inr (allEntries r)"
proof -
  from assms obtain filtered where f: "filteredEntries tz opts loaded = Inr filtered"
    by (cases "filteredEntries tz opts loaded") (simp_all add: loadDailyConversationData_def)
  with assms obtain g where g: "group_loop tz filtered [] = Inr g"
    by (cases "group_loop tz filtered []") (simp_all add: loadDailyConversationData_def)
  from assms f g have r: "r = \<lparr>conversations =
      Array_sort (\<lambda>a b. localeCompare (date b) (date a)) (summary_loop tz g),
      allEntries = filtered\<rparr>"
    by (simp add: loadDailyConversationData_def)
  from group_loop_size[OF g] have "group_size g = length filtered"
    by (simp add: group_size_def)
  then show ?thesis
    by (simp add: r f sum_list_Array_sort summary_loop_count)
qed

text \<open>
  Claim C5. Let the bounds \<open>since\<close> and \<open>until\<close>, each present or absent, be calendar
  dates written as \<open>YYYYMMDD\<close>. When the aggregation returns, the entries it kept are
  exactly the loaded entries whose local date is not before \<open>since\<close> and not after
  \<open>until\<close>, in the order they were loaded: the bounds are inclusive, and an absent bound
  constrains nothing.
\<close>

theorem date_filter_inclusive:
  assumes "loadDailyConversationData tz
      \<lparr>since = map_option YYYYMMDD s, until = map_option YYYYMMDD u\<rparr> loaded = Inr r"
    and "case s of None \<Rightarrow> True | Some d \<Rightarrow> is_date d"
    and "case u of None \<Rightarrow> True | Some d \<Rightarrow> is_date d"
  shows "allEntries r = filter (\<lambda>e. within_range s u (localDate tz (timestamp e))) loaded"
proof -
  from assms(1) obtain g where
    "filteredEntries tz \<lparr>since = map_option YYYYMMDD s, until = map_option YYYYMMDD u\<rparr> loaded =
      Inr (allEntries r)"
    by (rule load_Inr_parts)
  from filteredEntries_range[OF this assms(2,3)] show ?thesis .
qed

text \<open>
  Claim C7. Two arrays with the same events, in whatever order, give the same sessions for
  every gap, and the same rendered total. Sorting an array that is sorted already changes
  nothing: the sessions of the array sorted twice are those of the array sorted once.
\<close>

theorem segmentation_deterministic:
  fixes es es' :: "'a stamped_scheme list"
  assumes "mset es = mset es'"
  shows "segment gap (sortEntries es) = segment gap (sortEntries es') \<and>
    segment gap (sortEntries (sortEntries es)) = segment gap (sortEntries es) \<and>
    calculateConversationTime es = calculateConversationTime es' \<and>
    calculateConversationTime (sortEntries es) = calculateConversationTime es"
proof -
  have a: "segment g (sortEntries es) = segment g (sortEntries es')" for g
    by (rule segment_cong) (rule sortEntries_mset_cong[OF assms])
  have b: "length es = length es'" by (rule length_mset_eq[OF assms])
  show ?thesis
    by (simp add: a b sortEntries_idem calculateConversationTime_def length_sortEntries)
qed

theorem segmentation_deterministic_witness:
  "mset [\<lparr>timestamp = 360001\<rparr>, \<lparr>timestamp = 0\<rparr>, \<lparr>timestamp = 180000\<rparr>] =
     mset [\<lparr>timestamp = 0\<rparr>, \<lparr>timestamp = 180000\<rparr>, \<lparr>timestamp = 360001\<rparr>] \<and>
   segment SESSION_GAP_MS (sortEntries [\<lparr>timestamp = 360001\<rparr>, \<lparr>timestamp = 0\<rparr>, \<lparr>timestamp = 180000\<rparr>]) =
     segment SESSION_GAP_MS (sortEntries [\<lparr>timestamp = 0\<rparr>, \<lparr>timestamp = 180000\<rparr>, \<lparr>timestamp = 360001\<rparr>]) \<and>
   calculateConversationTime [\<lparr>timestamp = 360001\<rparr>, \<lparr>timestamp = 0\<rparr>, \<lparr>timestamp = 180000\<rparr>] =
     calculateConversationTime [\<lparr>timestamp = 0\<rparr>, \<lparr>timestamp = 180000\<rparr>, \<lparr>timestamp = 360001\<rparr>]"
proof -
  have m: "mset [\<lparr>timestamp = 360001\<rparr>, \<lparr>timestamp = 0\<rparr>, \<lparr>timestamp = 180000\<rparr>] =
     mset [\<lparr>timestamp = 0\<rparr>, \<lparr>timestamp = 180000\<rparr>, \<lparr>timestamp = 360001\<rparr>]"
    by simp
  from segmentation_deterministic[OF m, of SESSION_GAP_MS] m show ?thesis by blast
qed

text \<open>
  Claim C8. A total of \<open>n\<close> minutes, \<open>n\<close> a natural number, is rendered as the decimal
  numeral of \<open>n\<close> followed by \<open>m\<close> when \<open>n\<close> is below 60, as the numeral of
  \<open>n div 60\<close> followed by \<open>h\<close> when \<open>n\<close> is a multiple of 60 from 60 on, and
  otherwise as the hours, \<open>h\<close>, a blank, the numeral of \<open>n mod 60\<close> and \<open>m\<close>.
\<close>

theorem render_minutes_cases:
  "render_minutes (int n) =
     (if n < 60 then nat_digits n @ ''m''
      else if n mod 60 = 0 then nat_digits (n div 60) @ ''h''
      else nat_digits (n div 60) @ ''h '' @ nat_digits (n mod 60) @ ''m'')"
proof -
  have rem: "js_rem (int n) 60 = int (n mod 60)"
    by (simp add: js_rem_def sgn_if zmod_int)
  have str: "String_num (int k) = nat_digits k" for k
    by (simp add: String_num_def)
  have dv: "int n div 60 = int (n div 60)" by (simp add: zdiv_int)
  show ?thesis
    unfolding render_minutes_def Let_def rem dv str by simp
qed

text \<open>
  Claim C9. When the aggregation returns, its summaries are in descending order of their
  date strings: no summary has a date string below that of a later one. Each date string
  is the formatted local date of an entry that was kept, and for such strings the order of
  the strings is the order of the calendar dates they stand for.
\<close>

theorem conversations_date_descending:
  assumes "loadDailyConversationData tz opts loaded = Inr r"
  shows "sorted_wrt (\<lambda>a b. \<not> js_lt (date a) (date b)) (conversations r) \<and>
    (\<forall>c \<in> set (conversations r). \<exists>e \<in> set (allEntries r).
       formatDate tz (timestamp e) = Inr (date c)) \<and>
    (\<forall>e \<in> set (allEntries r). \<forall>e' \<in> set (allEntries r). \<forall>a b.
       formatDate tz (timestamp e) = Inr a \<longrightarrow> formatDate tz (timestamp e') = Inr b \<longrightarrow>
       js_lt a b = date_lt (localDate tz (timestamp e)) (localDate tz (timestamp e')))"
proof -
  from assms obtain g where g: "group_loop tz (allEntries r) [] = Inr g"
    and c: "conversations r = Array_sort (\<lambda>a b. localeCompare (date b) (date a)) (summary_loop tz g)"
    by (rule load_Inr_parts)
  have "groups_ok tz (set (allEntries r)) []" by (simp add: groups_ok_def)
  from group_loop_ok[OF g this] have ok: "groups_ok tz (set (allEntries r)) g" by simp
  have 1: "sorted_wrt (\<lambda>a b. \<not> js_lt (date a) (date b)) (conversations r)"
    unfolding c by (rule conversations_sorted)
  have 2: "\<exists>e \<in> set (allEntries r). formatDate tz (timestamp e) = Inr (date x)"
    if "x \<in> set (conversations r)" for x
  proof -
    from that have "x \<in> set (summary_loop tz g)" by (simp add: c set_Array_sort)
    from summary_loop_dates[OF this] obtain es where m: "(date x, es) \<in> set g" and ne: "es \<noteq> []"
      by auto
    from ne obtain e where e: "e \<in> set es" by (cases es) auto
    from groups_okD[OF ok m] e
    have "e \<in> set (allEntries r)" "formatDate tz (timestamp e) = Inr (date x)"
      by blast+
    then show ?thesis by blast
  qed
  from 1 2 formatDate_order show ?thesis by blast
qed

text \<open>
  Claim C10. On the empty array \<^const>\<open>calculateConversationTime\<close> returns the string
  \<open>0m\<close>; it is a total function and raises nothing.
\<close>

theorem empty_input_0m: "calculateConversationTime ([] :: 'a stamped_scheme list) = ''0m''"
  by (simp add: calculateConversationTime_def)

end
